theory Spec2Isabelle
  imports Main
begin

text \<open>
  A shallow embedding of the coordination code of the Map Memoir front end: the
  health check and the view counter as functions of the outcomes of their I/O, the
  audio playback hook and the Maps SDK loader as state machines whose events are the
  calls of the user interface and the settling of the promises the code awaits.
\<close>

section \<open>Errors as values\<close>

text \<open>
  A JavaScript exception or a rejected promise is a value of \<open>js_error\<close>; a function
  that may throw returns \<open>js_error + 'a\<close>, with \<open>Inl\<close> for the exception.
\<close>

datatype js_error = NetworkError | InvalidStateError | StoreError

section \<open>The health check (\<open>checkServerHealth\<close>, backendApi)\<close>

text \<open>
  \<^verbatim>\<open>
  export async function checkServerHealth() {
    try {
      const response = await fetch(`${API_BASE_URL}/health`);
      return response.ok;
    } catch (error) {
      console.error('Server health check failed:', error);
      return false;
    }
  }
  \<close>
  The outcome of \<open>fetch\<close> is the environment's: either the promise rejects or it
  resolves to a response with a status code. The \<open>ok\<close> attribute of a response is
  the Fetch API's: the status lies in 200..299.
\<close>

record response =
  status :: nat

definition ok :: "response \<Rightarrow> bool" where
  "ok r = (200 \<le> status r \<and> status r \<le> 299)"

definition checkServerHealth_try :: "js_error + response \<Rightarrow> js_error + bool" where
  "checkServerHealth_try fetched =
     (case fetched of
        Inl e \<Rightarrow> Inl e
      | Inr r \<Rightarrow> Inr (ok r))"

definition checkServerHealth :: "js_error + response \<Rightarrow> js_error + bool" where
  "checkServerHealth fetched =
     (case checkServerHealth_try fetched of
        Inl e \<Rightarrow> Inr False
      | Inr b \<Rightarrow> Inr b)"

section \<open>The view counter (\<open>StoryService.incrementViews\<close>)\<close>

text \<open>
  \<^verbatim>\<open>
  static async incrementViews(storyId) {
    try {
      const storyRef = doc(db, 'stories', storyId);
      const storyDoc = await getDoc(storyRef);
      if (storyDoc.exists()) {
        const currentViews = storyDoc.data().views || 0;
        await updateDoc(storyRef, { views: currentViews + 1 });
      }
    } catch (error) {
      console.error('Error incrementing views:', error);
      // Don't show error toast as this is a background operation
    }
  }
  \<close>
  The three store operations are the environment's; each may throw or reject. A
  snapshot either does not exist or carries the document's \<open>views\<close> field. That
  field is a JavaScript value of any kind (a double, undefined, a string); the two
  operators the method applies to it, \<open>v || 0\<close> and \<open>v + 1\<close>, are JavaScript's
  and are taken as the parameters \<open>or_zero\<close> and \<open>plus_one\<close>. What the user can
  see is the list of toasts; the console is kept apart.
\<close>

datatype 'v snapshot = Missing | Found 'v

record 'v store_env =
  doc_result :: "js_error + unit"
  getDoc_result :: "js_error + 'v snapshot"
  updateDoc_result :: "js_error + unit"

record ui =
  toasts :: "string list"
  console :: "string list"

text \<open>The body of the \<open>try\<close>: the value written to the store, if any.\<close>

definition incrementViews_try ::
  "('v \<Rightarrow> 'v) \<Rightarrow> ('v \<Rightarrow> 'v) \<Rightarrow> 'v store_env \<Rightarrow> js_error + 'v option" where
  "incrementViews_try or_zero plus_one env =
     (case doc_result env of
        Inl e \<Rightarrow> Inl e
      | Inr _ \<Rightarrow>
          (case getDoc_result env of
             Inl e \<Rightarrow> Inl e
           | Inr Missing \<Rightarrow> Inr None
           | Inr (Found v) \<Rightarrow>
               (case updateDoc_result env of
                  Inl e \<Rightarrow> Inl e
                | Inr _ \<Rightarrow> Inr (Some (plus_one (or_zero v))))))"

text \<open>The whole method: its completion, the value written, and the user interface after it.\<close>

definition incrementViews ::
  "('v \<Rightarrow> 'v) \<Rightarrow> ('v \<Rightarrow> 'v) \<Rightarrow> 'v store_env \<Rightarrow> ui \<Rightarrow>
     (js_error + unit) \<times> 'v option \<times> ui" where
  "incrementViews or_zero plus_one env u =
     (case incrementViews_try or_zero plus_one env of
        Inl e \<Rightarrow> (Inr (), None, u\<lparr>console := console u @ [''Error incrementing views:'']\<rparr>)
      | Inr w \<Rightarrow> (Inr (), w, u))"

section \<open>The audio playback controller (\<open>useAudioPlayer\<close>)\<close>

text \<open>
  The hook keeps four pieces of React state (\<open>isPlaying\<close>, \<open>isLoading\<close>,
  \<open>isMuted\<close>, \<open>currentAudio\<close>) and three refs (\<open>audioContextRef\<close>,
  \<open>sourceRef\<close>, \<open>gainNodeRef\<close>). A buffer and a source node are named by a number;
  the gain node is its gain value.

  \<open>playAudio\<close> is an async function: it runs up to its first \<open>await\<close>, and each
  later stretch runs when the awaited promise settles. A call that is suspended at an
  \<open>await\<close> is a \<open>pending\<close> entry of \<open>inflight\<close>: which await it waits at, and
  the \<open>isMuted\<close> its closure captured.

  \<open>playAudio\<close> is built by \<open>useCallback(..., [isPlaying, stopAudio])\<close>, and
  \<open>stopAudio\<close> never changes: React hands out a new closure only on a render in which
  \<open>isPlaying\<close> differs from the previous render. The closure reads the \<open>isPlaying\<close>
  and the \<open>isMuted\<close> of the render that made it; these are \<open>seenPlaying\<close> and
  \<open>seenMuted\<close>.

  The audio engine is the environment's: \<open>sounding\<close> lists the source nodes that were
  started and have neither been stopped nor played to their end. \<open>fetches\<close> counts the
  calls of \<open>fetchAudio\<close>, \<open>notices\<close> are the toasts of the hook.
\<close>

datatype phase = AwaitFetch | AwaitResume | AwaitDecode

record pending =
  pcall :: nat
  pphase :: phase
  pmuted :: bool

record player =
  isPlaying :: bool
  isLoading :: bool
  isMuted :: bool
  currentAudio :: "nat option"
  audioContextRef :: "unit option"
  sourceRef :: "nat option"
  gainNodeRef :: "nat option"
  seenPlaying :: bool
  seenMuted :: bool
  inflight :: "pending list"
  nextCall :: nat
  sounding :: "nat list"
  nextSrc :: nat
  fetches :: nat
  notices :: "string list"

definition mount :: player where
  "mount = \<lparr>isPlaying = False, isLoading = False, isMuted = False, currentAudio = None,
            audioContextRef = None, sourceRef = None, gainNodeRef = None,
            seenPlaying = False, seenMuted = False, inflight = [], nextCall = 0,
            sounding = [], nextSrc = 0, fetches = 0, notices = []\<rparr>"

text \<open>The status of the specification's state machine, read off the two flags.\<close>

datatype status = Idle | Loading | Playing

definition status_of :: "player \<Rightarrow> status" where
  "status_of s = (if isPlaying s then Playing else if isLoading s then Loading else Idle)"

text \<open>
  \<^verbatim>\<open>
  const muteAudio = useCallback(() => {
    if (gainNodeRef.current) {
      gainNodeRef.current.gain.setValueAtTime(0, gainNodeRef.current.context.currentTime);
      setIsMuted(true);
    }
  }, []);
  \<close>
  and \<open>unmuteAudio\<close> likewise with 1 and \<open>false\<close>.
\<close>

definition muteAudio :: "player \<Rightarrow> player" where
  "muteAudio s =
     (case gainNodeRef s of
        None \<Rightarrow> s
      | Some g \<Rightarrow> s\<lparr>gainNodeRef := Some 0, isMuted := True\<rparr>)"

definition unmuteAudio :: "player \<Rightarrow> player" where
  "unmuteAudio s =
     (case gainNodeRef s of
        None \<Rightarrow> s
      | Some g \<Rightarrow> s\<lparr>gainNodeRef := Some 1, isMuted := False\<rparr>)"

text \<open>
  The engine's \<open>stop()\<close> on a source node: it halts a sounding node and raises on a
  node that is not sounding (the source's comment: "Source may already be stopped").
\<close>

definition source_stop :: "nat \<Rightarrow> nat list \<Rightarrow> js_error + nat list" where
  "source_stop x xs =
     (if x \<in> set xs then Inr (removeAll x xs) else Inl InvalidStateError)"

text \<open>
  \<^verbatim>\<open>
  const stopAudio = useCallback(() => {
    if (sourceRef.current) {
      try { sourceRef.current.stop(); console.log("here"); }
      catch (error) { /* Source may already be stopped */ }
      sourceRef.current = null;
    }
    setIsPlaying(false);
    setCurrentAudio(null);
  }, []);
  \<close>
  A stopped node reports \<open>ended\<close> as well; its \<open>onended\<close> handler repeats the three
  assignments \<open>stopAudio\<close> has just made, and is taken to run before any later event.
\<close>

definition stopAudio :: "player \<Rightarrow> js_error + player" where
  "stopAudio s =
     (let s1 = (case sourceRef s of
                  None \<Rightarrow> s
                | Some x \<Rightarrow>
                    (case source_stop x (sounding s) of
                       Inr xs \<Rightarrow> s\<lparr>sounding := xs\<rparr>
                     | Inl e \<Rightarrow> s)
                    \<lparr>sourceRef := None\<rparr>)
      in Inr (s1\<lparr>isPlaying := False, currentAudio := None\<rparr>))"

text \<open>
  \<open>playAudio\<close> up to its first \<open>await\<close> (lines 49 to 58): the toggle, or the start
  of a fetch.
\<close>

definition playAudio :: "player \<Rightarrow> js_error + player" where
  "playAudio s =
     (if seenPlaying s then stopAudio s
      else Inr (s\<lparr>isLoading := True,
                  fetches := Suc (fetches s),
                  inflight := inflight s @
                    [\<lparr>pcall = nextCall s, pphase = AwaitFetch, pmuted = seenMuted s\<rparr>],
                  nextCall := Suc (nextCall s)\<rparr>))"

definition find_pending :: "nat \<Rightarrow> phase \<Rightarrow> pending list \<Rightarrow> pending option" where
  "find_pending c ph ps = find (\<lambda>p. pcall p = c \<and> pphase p = ph) ps"

definition set_phase :: "nat \<Rightarrow> phase \<Rightarrow> pending list \<Rightarrow> pending list" where
  "set_phase c ph ps = map (\<lambda>p. if pcall p = c then p\<lparr>pphase := ph\<rparr> else p) ps"

definition drop_pending :: "nat \<Rightarrow> pending list \<Rightarrow> pending list" where
  "drop_pending c ps = filter (\<lambda>p. pcall p \<noteq> c) ps"

text \<open>
  The fetch of call \<open>c\<close> resolves (lines 58 to 72): the audio context is created if
  there is none; if the engine reports it suspended the call awaits \<open>resume()\<close>,
  otherwise it awaits \<open>decodeAudioData\<close>.
\<close>

definition on_fetched :: "nat \<Rightarrow> bool \<Rightarrow> player \<Rightarrow> player" where
  "on_fetched c suspended s =
     (case find_pending c AwaitFetch (inflight s) of
        None \<Rightarrow> s
      | Some p \<Rightarrow>
          s\<lparr>audioContextRef := Some (),
            inflight := set_phase c (if suspended then AwaitResume else AwaitDecode) (inflight s)\<rparr>)"

definition on_resumed :: "nat \<Rightarrow> player \<Rightarrow> player" where
  "on_resumed c s =
     (case find_pending c AwaitResume (inflight s) of
        None \<Rightarrow> s
      | Some p \<Rightarrow> s\<lparr>inflight := set_phase c AwaitDecode (inflight s)\<rparr>)"

text \<open>
  The decoding of call \<open>c\<close> resolves with buffer \<open>b\<close> (lines 72 to 98, then
  \<open>finally\<close>): a fresh source node; the gain node created if there is none and set
  from the closure's \<open>isMuted\<close>; the source installed in \<open>sourceRef\<close> and started.
\<close>

definition on_decoded :: "nat \<Rightarrow> nat \<Rightarrow> player \<Rightarrow> player" where
  "on_decoded c b s =
     (case find_pending c AwaitDecode (inflight s) of
        None \<Rightarrow> s
      | Some p \<Rightarrow>
          s\<lparr>gainNodeRef := Some (if pmuted p then 0 else 1),
            sourceRef := Some (nextSrc s),
            currentAudio := Some b,
            isPlaying := True,
            sounding := sounding s @ [nextSrc s],
            nextSrc := Suc (nextSrc s),
            isLoading := False,
            inflight := drop_pending c (inflight s)\<rparr>)"

text \<open>
  The promise call \<open>c\<close> awaits rejects, whichever it is (\<open>catch\<close>, then
  \<open>finally\<close>).
\<close>

definition on_failed :: "nat \<Rightarrow> player \<Rightarrow> player" where
  "on_failed c s =
     (if c \<in> set (map pcall (inflight s))
      then s\<lparr>notices := notices s @ [''Failed to play audio narration''],
             isPlaying := False,
             isLoading := False,
             inflight := drop_pending c (inflight s)\<rparr>
      else s)"

text \<open>
  A sounding source plays to its end; its \<open>onended\<close> handler (lines 92 to 96) writes
  the shared state and the shared ref, whichever source it belongs to.
\<close>

definition on_ended :: "nat \<Rightarrow> player \<Rightarrow> player" where
  "on_ended x s =
     (if x \<in> set (sounding s)
      then s\<lparr>sounding := removeAll x (sounding s),
             isPlaying := False,
             currentAudio := None,
             sourceRef := None\<rparr>
      else s)"

text \<open>
  React renders after each handler has run; a render in which \<open>isPlaying\<close> has
  changed makes the new \<open>playAudio\<close> closure.
\<close>

definition render :: "player \<Rightarrow> player" where
  "render s =
     (if seenPlaying s = isPlaying s then s
      else s\<lparr>seenPlaying := isPlaying s, seenMuted := isMuted s\<rparr>)"

datatype event =
    Play | Stop | Mute | Unmute
  | FetchOk nat bool | ResumeOk nat | DecodeOk nat nat | Fail nat
  | Ended nat

fun handle :: "event \<Rightarrow> player \<Rightarrow> player" where
  "handle Play s = (case playAudio s of Inr s' \<Rightarrow> s' | Inl e \<Rightarrow> s)"
| "handle Stop s = (case stopAudio s of Inr s' \<Rightarrow> s' | Inl e \<Rightarrow> s)"
| "handle Mute s = muteAudio s"
| "handle Unmute s = unmuteAudio s"
| "handle (FetchOk c suspended) s = on_fetched c suspended s"
| "handle (ResumeOk c) s = on_resumed c s"
| "handle (DecodeOk c b) s = on_decoded c b s"
| "handle (Fail c) s = on_failed c s"
| "handle (Ended x) s = on_ended x s"

definition step :: "event \<Rightarrow> player \<Rightarrow> player" where
  "step e s = render (handle e s)"

fun run :: "event list \<Rightarrow> player \<Rightarrow> player" where
  "run [] s = s"
| "run (e # es) s = run es (step e s)"

text \<open>The states the controller can reach from its first render.\<close>

inductive reachable :: "player \<Rightarrow> bool" where
  reachable_mount: "reachable mount"
| reachable_step: "reachable s \<Longrightarrow> reachable (step e s)"

text \<open>
  The play button of \<open>StoryDisplay\<close> is disabled while \<open>isLoadingAudio\<close> holds: under
  the user interface no play request arrives while \<open>isLoading\<close> is set.
\<close>

definition ui_step :: "event \<Rightarrow> player \<Rightarrow> player" where
  "ui_step e s = (if e = Play \<and> isLoading s then s else step e s)"

fun ui_run :: "event list \<Rightarrow> player \<Rightarrow> player" where
  "ui_run [] s = s"
| "ui_run (e # es) s = ui_run es (ui_step e s)"

inductive ui_reachable :: "player \<Rightarrow> bool" where
  ui_reachable_mount: "ui_reachable mount"
| ui_reachable_step: "ui_reachable s \<Longrightarrow> ui_reachable (ui_step e s)"

text \<open>
  What holds in every state the controller reaches: the closure has seen the current
  \<open>isPlaying\<close>; the calls in flight have distinct numbers below \<open>nextCall\<close>; a
  playing controller holds a source; a held source is sounding; a gain node exists
  once a source was installed.
\<close>

definition coherent :: "player \<Rightarrow> bool" where
  "coherent s =
     (seenPlaying s = isPlaying s \<and>
      list_all (\<lambda>p. pcall p < nextCall s) (inflight s) \<and>
      distinct (map pcall (inflight s)) \<and>
      (isPlaying s \<longrightarrow> sourceRef s \<noteq> None) \<and>
      (case sourceRef s of None \<Rightarrow> True | Some x \<Rightarrow> x \<in> set (sounding s) \<and> gainNodeRef s \<noteq> None) \<and>
      list_all (\<lambda>x. x < nextSrc s) (sounding s) \<and>
      distinct (sounding s))"

text \<open>
  What holds in addition when play is never requested during loading: one call in
  flight at most, and \<open>isLoading\<close> says whether there is one; the source held is the
  only one sounding, and it is held exactly while \<open>isPlaying\<close>.
\<close>

definition single_flight :: "player \<Rightarrow> bool" where
  "single_flight s =
     (length (inflight s) \<le> 1 \<and>
      (isLoading s = (inflight s \<noteq> [])) \<and>
      (isPlaying s \<longrightarrow> inflight s = []) \<and>
      ((sourceRef s \<noteq> None) = isPlaying s) \<and>
      sounding s = (case sourceRef s of None \<Rightarrow> [] | Some x \<Rightarrow> [x]))"

text \<open>The events of a load that succeeds, for call \<open>c\<close>: the fetch, the resume if
  the context was suspended, the decoding.\<close>

definition loaded_ok :: "nat \<Rightarrow> bool \<Rightarrow> nat \<Rightarrow> event list" where
  "loaded_ok c suspended b =
     FetchOk c suspended # (if suspended then [ResumeOk c] else []) @ [DecodeOk c b]"

text \<open>The events that complete the load of call \<open>c\<close> from the await it is suspended
  at: the whole load from the fetch, the resume and the decoding from the resume, the
  decoding alone from the decoding.\<close>

fun remaining_ok :: "nat \<Rightarrow> phase \<Rightarrow> bool \<Rightarrow> nat \<Rightarrow> event list" where
  "remaining_ok c AwaitFetch suspended b = loaded_ok c suspended b"
| "remaining_ok c AwaitResume suspended b = [ResumeOk c, DecodeOk c b]"
| "remaining_ok c AwaitDecode suspended b = [DecodeOk c b]"

section \<open>The Maps SDK loader (\<open>useGoogleMaps\<close>)\<close>

text \<open>
  The module keeps two variables for the whole page, \<open>isLoadingGoogleMaps\<close> and
  \<open>loadPromise\<close>. A load is named by a number; promise \<open>l\<close>, the script element,
  the global callback and the ten-second timer of load \<open>l\<close> carry that number (the
  source names the callback after \<open>Date.now()\<close>, taken to differ between loads).
  \<open>scripts\<close> are the script elements in the document that match
  \<open>script[src*="maps.googleapis.com"]\<close>, \<open>requests\<close> counts the script elements
  appended so far, and \<open>fullyLoaded\<close> is the value of \<open>isFullyLoaded()\<close>.

  Each component that uses the hook is a \<open>hook\<close>: its \<open>loaded\<close> state, and the
  promise whose \<open>then\<close> and \<open>catch\<close> it has attached to, if any.
\<close>

datatype promise = Pending | Resolved | Rejected

record hook =
  loaded :: bool
  awaits :: "nat option"

record page =
  isLoadingGoogleMaps :: bool
  loadPromise :: "nat option"
  promises :: "promise list"
  scripts :: "nat list"
  callbacks :: "nat list"
  timeouts :: "nat list"
  polls :: "nat list"
  fullyLoaded :: bool
  hooks :: "hook list"
  requests :: nat

definition fresh_page :: page where
  "fresh_page = \<lparr>isLoadingGoogleMaps = False, loadPromise = None, promises = [], scripts = [],
                 callbacks = [], timeouts = [], polls = [], fullyLoaded = False, hooks = [],
                 requests = 0\<rparr>"

text \<open>\<^verbatim>\<open>!apiKey || apiKey === 'your_google_maps_api_key_here'\<close>\<close>

definition placeholder :: string where
  "placeholder = ''your_google_maps_api_key_here''"

definition invalid_key :: "string option \<Rightarrow> bool" where
  "invalid_key apiKey =
     (case apiKey of None \<Rightarrow> True | Some k \<Rightarrow> k = [] \<or> k = placeholder)"

definition promise_state :: "nat \<Rightarrow> page \<Rightarrow> promise" where
  "promise_state l s = (if l < length (promises s) then promises s ! l else Pending)"

text \<open>
  What a caller's reactions do to its \<open>loaded\<close> state:
  \<^verbatim>\<open>loadPromise.then(() => { if (isFullyLoaded()) setLoaded(true) })
            .catch(() => setLoaded(false))\<close>
\<close>

fun react :: "promise \<Rightarrow> bool \<Rightarrow> bool \<Rightarrow> bool" where
  "react Pending full l = l"
| "react Resolved full l = (if full then True else l)"
| "react Rejected full l = False"

text \<open>
  \<open>resolve()\<close> or \<open>reject()\<close> of promise \<open>l\<close>: a promise settles once, and the
  reactions of every caller attached to it run.
\<close>

definition settle :: "nat \<Rightarrow> promise \<Rightarrow> page \<Rightarrow> page" where
  "settle l outcome s =
     (if promise_state l s = Pending \<and> l < length (promises s)
      then s\<lparr>promises := (promises s)[l := outcome],
             hooks := map (\<lambda>h. if awaits h = Some l
                                then h\<lparr>loaded := react outcome (fullyLoaded s) (loaded h)\<rparr>
                                else h) (hooks s)\<rparr>
      else s)"

text \<open>
  A component mounts with \<open>apiKey\<close>: the first render takes \<open>loaded\<close> from
  \<open>isFullyLoaded()\<close>, then the effect runs (lines 27 to 147).
\<close>

definition useGoogleMaps :: "string option \<Rightarrow> page \<Rightarrow> page" where
  "useGoogleMaps apiKey s =
     (let h = \<lparr>loaded = fullyLoaded s, awaits = None\<rparr> in
      if invalid_key apiKey then s\<lparr>hooks := hooks s @ [h]\<rparr>
      else if fullyLoaded s then s\<lparr>hooks := hooks s @ [h\<lparr>loaded := True\<rparr>]\<rparr>
      else
        (case (if isLoadingGoogleMaps s then loadPromise s else None) of
           Some l \<Rightarrow>
             s\<lparr>hooks := hooks s @
                  [h\<lparr>loaded := react (promise_state l s) (fullyLoaded s) (loaded h),
                     awaits := Some l\<rparr>]\<rparr>
         | None \<Rightarrow>
             (let l = length (promises s) in
              s\<lparr>isLoadingGoogleMaps := True,
                loadPromise := Some l,
                promises := promises s @ [Pending],
                scripts := [l],
                callbacks := callbacks s @ [l],
                timeouts := timeouts s @ [l],
                requests := Suc (requests s),
                hooks := hooks s @ [h\<lparr>awaits := Some l\<rparr>]\<rparr>)))"

text \<open>\<open>checkReady\<close> of load \<open>l\<close> (lines 101 to 110).\<close>

definition checkReady :: "nat \<Rightarrow> page \<Rightarrow> page" where
  "checkReady l s =
     (if fullyLoaded s then settle l Resolved (s\<lparr>isLoadingGoogleMaps := False\<rparr>)
      else s\<lparr>polls := polls s @ [l]\<rparr>)"

text \<open>The script of load \<open>l\<close> runs and calls the global callback (lines 94 to 113).\<close>

definition on_callback :: "nat \<Rightarrow> page \<Rightarrow> page" where
  "on_callback l s =
     (if l \<in> set (callbacks s)
      then checkReady l (s\<lparr>callbacks := removeAll l (callbacks s)\<rparr>)
      else s)"

text \<open>The script of load \<open>l\<close> fails to load (\<open>script.onerror\<close>, lines 116 to 124).\<close>

definition on_script_error :: "nat \<Rightarrow> page \<Rightarrow> page" where
  "on_script_error l s =
     (if l \<in> set (callbacks s)
      then settle l Rejected
             (s\<lparr>isLoadingGoogleMaps := False, callbacks := removeAll l (callbacks s)\<rparr>)
      else s)"

text \<open>A 100 ms timer of \<open>checkReady\<close> fires.\<close>

definition on_poll :: "nat \<Rightarrow> page \<Rightarrow> page" where
  "on_poll l s =
     (if l \<in> set (polls s) then checkReady l (s\<lparr>polls := remove1 l (polls s)\<rparr>) else s)"

text \<open>The ten-second timer of load \<open>l\<close> fires (lines 130 to 136).\<close>

definition on_timeout :: "nat \<Rightarrow> page \<Rightarrow> page" where
  "on_timeout l s =
     (if l \<in> set (timeouts s)
      then (let s1 = s\<lparr>timeouts := remove1 l (timeouts s)\<rparr> in
            if isLoadingGoogleMaps s1
            then settle l Rejected (s1\<lparr>isLoadingGoogleMaps := False\<rparr>)
            else s1)
      else s)"

datatype page_event =
    Mount "string option" | SdkAttached
  | ScriptRan nat | ScriptError nat | Poll nat | Timeout nat

fun page_step :: "page_event \<Rightarrow> page \<Rightarrow> page" where
  "page_step (Mount apiKey) s = useGoogleMaps apiKey s"
| "page_step SdkAttached s = s\<lparr>fullyLoaded := True\<rparr>"
| "page_step (ScriptRan l) s = on_callback l s"
| "page_step (ScriptError l) s = on_script_error l s"
| "page_step (Poll l) s = on_poll l s"
| "page_step (Timeout l) s = on_timeout l s"

fun page_run :: "page_event list \<Rightarrow> page \<Rightarrow> page" where
  "page_run [] s = s"
| "page_run (e # es) s = page_run es (page_step e s)"




section \<open>Properties of the health check\<close>

text \<open>
  C10. \<open>checkServerHealth\<close> is total: whatever the GET to /health does, it resolves
  to a boolean and never rejects; the boolean is true exactly when a response arrived
  with a status in 200..299, and false for every other status and for every thrown error.
\<close>

theorem checkServerHealth_total:
  "checkServerHealth fetched =
     Inr (case fetched of Inl e \<Rightarrow> False | Inr r \<Rightarrow> 200 \<le> status r \<and> status r \<le> 299)"
  by (simp add: checkServerHealth_def checkServerHealth_try_def ok_def split: sum.splits)

section \<open>Properties of the view counter\<close>

text \<open>
  C9. \<open>incrementViews\<close> swallows every failure of the store operations: for every
  outcome of \<open>doc\<close>, \<open>getDoc\<close> and \<open>updateDoc\<close> it completes normally, and it
  shows the user no toast.
\<close>

theorem incrementViews_swallows:
  "fst (incrementViews or_zero plus_one env u) = Inr () \<and>
   toasts (snd (snd (incrementViews or_zero plus_one env u))) = toasts u"
  by (simp add: incrementViews_def split: sum.splits)

section \<open>Invariants of the audio controller\<close>

lemma map_pcall_set_phase: "map pcall (set_phase c ph ps) = map pcall ps"
  by (induction ps) (auto simp: set_phase_def)

lemma list_all_set_phase:
  "list_all (\<lambda>p. pcall p < n) (set_phase c ph ps) = list_all (\<lambda>p. pcall p < n) ps"
  by (induction ps) (auto simp: set_phase_def)

lemma list_all_drop_pending:
  "list_all P ps \<Longrightarrow> list_all P (drop_pending c ps)"
  by (induction ps) (auto simp: drop_pending_def)

lemma distinct_drop_pending:
  "distinct (map pcall ps) \<Longrightarrow> distinct (map pcall (drop_pending c ps))"
  by (simp add: drop_pending_def distinct_map_filter)

lemma find_pending_SomeD:
  "find_pending c ph ps = Some p \<Longrightarrow> p \<in> set ps \<and> pcall p = c \<and> pphase p = ph"
  by (induction ps) (auto simp: find_pending_def split: if_splits)

lemma list_all_mono_less:
  "list_all (\<lambda>x. x < (n::nat)) xs \<Longrightarrow> list_all (\<lambda>x. x < Suc n) xs"
  by (induction xs) auto

lemma list_all_pcall_Suc:
  "list_all (\<lambda>p. pcall p < (n::nat)) ps \<Longrightarrow> list_all (\<lambda>p. pcall p < Suc n) ps"
  by (induction ps) auto

lemma list_all_removeAll: "list_all P xs \<Longrightarrow> list_all P (removeAll x xs)"
  by (induction xs) auto

lemma fresh_not_in: "list_all (\<lambda>x. x < (n::nat)) xs \<Longrightarrow> n \<notin> set xs"
  by (induction xs) auto

lemma fresh_call_not_in: "list_all (\<lambda>p. pcall p < (n::nat)) ps \<Longrightarrow> n \<notin> pcall ` set ps"
  by (induction ps) auto

lemma coherent_render: "coherent (render s) = coherent (s\<lparr>seenPlaying := isPlaying s\<rparr>)"
  by (cases "seenPlaying s = isPlaying s") (auto simp: coherent_def render_def split: option.splits)

lemma coherent_stopAudio: "coherent s \<Longrightarrow> stopAudio s = Inr s' \<Longrightarrow> coherent (render s')"
  unfolding coherent_render
  by (auto simp: coherent_def stopAudio_def source_stop_def Let_def list_all_removeAll distinct_removeAll
      split: option.splits if_splits)

lemma coherent_playAudio: "coherent s \<Longrightarrow> playAudio s = Inr s' \<Longrightarrow> coherent (render s')"
proof (cases "seenPlaying s")
  case True
  assume "coherent s" "playAudio s = Inr s'"
  with True show ?thesis by (simp add: playAudio_def coherent_stopAudio)
next
  case False
  assume "coherent s" "playAudio s = Inr s'"
  with False show ?thesis
    unfolding coherent_render
    by (auto simp: playAudio_def coherent_def list_all_pcall_Suc fresh_call_not_in split: option.splits)
qed

lemma coherent_mute: "coherent s \<Longrightarrow> coherent (render (muteAudio s))"
  unfolding coherent_render by (auto simp: coherent_def muteAudio_def split: option.splits)

lemma coherent_unmute: "coherent s \<Longrightarrow> coherent (render (unmuteAudio s))"
  unfolding coherent_render by (auto simp: coherent_def unmuteAudio_def split: option.splits)

lemma coherent_fetched: "coherent s \<Longrightarrow> coherent (render (on_fetched c b s))"
  unfolding coherent_render
  by (auto simp: coherent_def on_fetched_def map_pcall_set_phase list_all_set_phase split: option.splits)

lemma coherent_resumed: "coherent s \<Longrightarrow> coherent (render (on_resumed c s))"
  unfolding coherent_render
  by (auto simp: coherent_def on_resumed_def map_pcall_set_phase list_all_set_phase split: option.splits)

lemma coherent_decoded: "coherent s \<Longrightarrow> coherent (render (on_decoded c b s))"
  unfolding coherent_render
  by (auto simp: coherent_def on_decoded_def list_all_drop_pending distinct_drop_pending
       list_all_mono_less fresh_not_in split: option.splits)

lemma coherent_failed: "coherent s \<Longrightarrow> coherent (render (on_failed c s))"
  unfolding coherent_render
  by (auto simp: coherent_def on_failed_def list_all_drop_pending distinct_drop_pending
       split: option.splits)

lemma coherent_ended: "coherent s \<Longrightarrow> coherent (render (on_ended x s))"
  unfolding coherent_render
  by (auto simp: coherent_def on_ended_def list_all_removeAll distinct_removeAll
       split: option.splits)

lemma stopAudio_Inr: "\<exists>s'. stopAudio s = Inr s'"
  by (simp add: stopAudio_def Let_def)

lemma playAudio_Inr: "\<exists>s'. playAudio s = Inr s'"
  using stopAudio_Inr by (simp add: playAudio_def)

lemma coherent_step: "coherent s \<Longrightarrow> coherent (step e s)"
proof (cases e)
  case Play
  obtain s' where "playAudio s = Inr s'" using playAudio_Inr by blast
  moreover assume "coherent s"
  ultimately show ?thesis using Play by (simp add: step_def coherent_playAudio)
next
  case Stop
  obtain s' where "stopAudio s = Inr s'" using stopAudio_Inr by blast
  moreover assume "coherent s"
  ultimately show ?thesis using Stop by (simp add: step_def coherent_stopAudio)
qed (simp_all add: step_def coherent_mute coherent_unmute coherent_fetched coherent_resumed coherent_decoded coherent_failed coherent_ended)

lemma coherent_mount: "coherent mount"
  by (simp add: coherent_def mount_def)

lemma reachable_coherent: "reachable s \<Longrightarrow> coherent s"
  by (induction rule: reachable.induct) (simp_all add: coherent_mount coherent_step)

lemma reachable_run: "reachable s \<Longrightarrow> reachable (run es s)"
  by (induction es arbitrary: s) (simp_all add: reachable_step)

lemma ui_reachable_reachable: "ui_reachable s \<Longrightarrow> reachable s"
  by (induction rule: ui_reachable.induct) (auto simp: ui_step_def intro: reachable.intros)

lemma ui_reachable_run: "ui_reachable s \<Longrightarrow> ui_reachable (ui_run es s)"
  by (induction es arbitrary: s) (simp_all add: ui_reachable_step)

lemma single_flight_render: "single_flight (render s) = single_flight s"
  by (auto simp: single_flight_def render_def split: option.splits)

lemma find_pending_single:
  "find_pending c ph ps = Some p \<Longrightarrow> length ps \<le> 1 \<Longrightarrow> ps = [p]"
  by (cases ps) (auto simp: find_pending_def split: if_splits)

lemma drop_pending_single: "pcall p = c \<Longrightarrow> drop_pending c [p] = []"
  by (simp add: drop_pending_def)

lemma set_phase_Nil_iff: "(set_phase c ph ps = []) = (ps = [])"
  by (simp add: set_phase_def)

lemma length_set_phase: "length (set_phase c ph ps) = length ps"
  by (simp add: set_phase_def)

lemma drop_pending_member_single:
  "c \<in> set (map pcall ps) \<Longrightarrow> length ps \<le> 1 \<Longrightarrow> drop_pending c ps = []"
  by (cases ps) (auto simp: drop_pending_def)

lemma sf_stopAudio: "coherent s \<Longrightarrow> single_flight s \<Longrightarrow> stopAudio s = Inr s' \<Longrightarrow> single_flight s'"
  by (auto simp: single_flight_def coherent_def stopAudio_def source_stop_def Let_def
      split: option.splits if_splits)

lemma sf_playAudio:
  "coherent s \<Longrightarrow> single_flight s \<Longrightarrow> \<not> isLoading s \<Longrightarrow> playAudio s = Inr s' \<Longrightarrow> single_flight s'"
proof (cases "seenPlaying s")
  case True
  assume "coherent s" "single_flight s" "playAudio s = Inr s'"
  with True show ?thesis by (simp add: playAudio_def sf_stopAudio)
next
  case False
  assume "coherent s" "single_flight s" "\<not> isLoading s" "playAudio s = Inr s'"
  with False show ?thesis
    by (auto simp: playAudio_def single_flight_def coherent_def split: option.splits)
qed

lemma sf_mute: "single_flight s \<Longrightarrow> single_flight (muteAudio s)"
  by (auto simp: single_flight_def muteAudio_def split: option.splits)

lemma sf_unmute: "single_flight s \<Longrightarrow> single_flight (unmuteAudio s)"
  by (auto simp: single_flight_def unmuteAudio_def split: option.splits)

lemma sf_fetched: "single_flight s \<Longrightarrow> single_flight (on_fetched c b s)"
  by (auto simp: single_flight_def on_fetched_def set_phase_Nil_iff length_set_phase
      split: option.splits)

lemma sf_resumed: "single_flight s \<Longrightarrow> single_flight (on_resumed c s)"
  by (auto simp: single_flight_def on_resumed_def set_phase_Nil_iff length_set_phase
      split: option.splits)

lemma sf_decoded: "single_flight s \<Longrightarrow> single_flight (on_decoded c b s)"
proof (cases "find_pending c AwaitDecode (inflight s)")
  case None
  assume "single_flight s"
  with None show ?thesis by (simp add: on_decoded_def)
next
  case (Some p)
  assume sf: "single_flight s"
  then have one: "inflight s = [p]"
    using Some find_pending_single by (simp add: single_flight_def)
  moreover have "pcall p = c" using Some find_pending_SomeD by blast
  ultimately have gone: "drop_pending c (inflight s) = []"
    by (simp add: drop_pending_single)
  from sf one have "\<not> isPlaying s" "sourceRef s = None" "sounding s = []"
    by (auto simp: single_flight_def split: option.splits)
  with Some gone show ?thesis
    by (simp add: on_decoded_def single_flight_def)
qed

lemma sf_failed: "single_flight s \<Longrightarrow> single_flight (on_failed c s)"
proof (cases "c \<in> set (map pcall (inflight s))")
  case False
  assume "single_flight s"
  with False show ?thesis by (simp add: on_failed_def)
next
  case True
  assume sf: "single_flight s"
  then have gone: "drop_pending c (inflight s) = []"
    using True drop_pending_member_single by (simp add: single_flight_def)
  from True have "inflight s \<noteq> []" by auto
  with sf have "\<not> isPlaying s" "sourceRef s = None" "sounding s = []"
    by (auto simp: single_flight_def split: option.splits)
  with True gone show ?thesis
    by (simp add: on_failed_def single_flight_def)
qed

lemma sf_ended: "single_flight s \<Longrightarrow> single_flight (on_ended x s)"
  by (auto simp: single_flight_def on_ended_def split: option.splits if_splits)

lemma sf_ui_step: "coherent s \<Longrightarrow> single_flight s \<Longrightarrow> single_flight (ui_step e s)"
proof (cases e)
  case Play
  obtain s' where "playAudio s = Inr s'" using playAudio_Inr by blast
  moreover assume "coherent s" "single_flight s"
  ultimately show ?thesis using Play
    by (auto simp: ui_step_def step_def single_flight_render sf_playAudio)
next
  case Stop
  obtain s' where "stopAudio s = Inr s'" using stopAudio_Inr by blast
  moreover assume "coherent s" "single_flight s"
  ultimately show ?thesis using Stop
    by (auto simp: ui_step_def step_def single_flight_render sf_stopAudio)
qed (simp_all add: ui_step_def step_def single_flight_render
      sf_mute sf_unmute sf_fetched sf_resumed sf_decoded sf_failed sf_ended)

lemma sf_mount: "single_flight mount"
  by (simp add: single_flight_def mount_def)

lemma ui_reachable_single_flight: "ui_reachable s \<Longrightarrow> single_flight s"
proof (induction rule: ui_reachable.induct)
  case ui_reachable_mount
  show ?case by (rule sf_mount)
next
  case (ui_reachable_step s e)
  then show ?case
    using sf_ui_step ui_reachable_reachable reachable_coherent by blast
qed

lemma stopAudio_held:
  "sourceRef s = Some x \<Longrightarrow> x \<in> set (sounding s) \<Longrightarrow>
   stopAudio s = Inr (s\<lparr>sounding := removeAll x (sounding s), sourceRef := None,
                        isPlaying := False, currentAudio := None\<rparr>)"
  by (simp add: stopAudio_def source_stop_def)

lemma step_Play_playing:
  assumes "coherent s" and "isPlaying s"
  shows "\<exists>x. sourceRef s = Some x \<and> x \<in> set (sounding s) \<and>
           step Play s = s\<lparr>sounding := removeAll x (sounding s), sourceRef := None,
                            isPlaying := False, currentAudio := None,
                            seenPlaying := False, seenMuted := isMuted s\<rparr>"
proof -
  from assms obtain x where x: "sourceRef s = Some x" "x \<in> set (sounding s)"
    by (auto simp: coherent_def split: option.splits)
  from assms have seen: "seenPlaying s" by (simp add: coherent_def)
  have "step Play s = s\<lparr>sounding := removeAll x (sounding s), sourceRef := None,
                            isPlaying := False, currentAudio := None,
                            seenPlaying := False, seenMuted := isMuted s\<rparr>"
    using seen by (simp add: step_def playAudio_def stopAudio_held [OF x] render_def)
  with x show ?thesis by blast
qed

lemma step_Play_idle:
  assumes "coherent s" and "\<not> isPlaying s"
  shows "step Play s = s\<lparr>isLoading := True, fetches := Suc (fetches s),
                  inflight := inflight s @
                    [\<lparr>pcall = nextCall s, pphase = AwaitFetch, pmuted = seenMuted s\<rparr>],
                  nextCall := Suc (nextCall s)\<rparr>"
  using assms
  by (auto simp: coherent_def step_def render_def playAudio_def)

lemma render_fields [simp]:
  "isPlaying (render s) = isPlaying s"
  "isLoading (render s) = isLoading s"
  "isMuted (render s) = isMuted s"
  "sourceRef (render s) = sourceRef s"
  "gainNodeRef (render s) = gainNodeRef s"
  "inflight (render s) = inflight s"
  "sounding (render s) = sounding s"
  "nextSrc (render s) = nextSrc s"
  "nextCall (render s) = nextCall s"
  "fetches (render s) = fetches s"
  "notices (render s) = notices s"
  by (simp_all add: render_def)

lemma status_of_render [simp]: "status_of (render s) = status_of s"
  by (simp add: status_of_def)

lemma stopAudio_fields:
  "\<exists>s'. stopAudio s = Inr s' \<and> inflight s' = inflight s \<and> nextSrc s' = nextSrc s \<and>
        fetches s' = fetches s \<and> isLoading s' = isLoading s \<and> \<not> isPlaying s' \<and>
        sourceRef s' = None \<and> gainNodeRef s' = gainNodeRef s \<and> isMuted s' = isMuted s"
  by (cases "sourceRef s") (auto simp: stopAudio_def source_stop_def)

lemma step_Stop_fields:
  "inflight (step Stop s) = inflight s"
  "nextSrc (step Stop s) = nextSrc s"
  "fetches (step Stop s) = fetches s"
  "isLoading (step Stop s) = isLoading s"
  "isPlaying (step Stop s) = False"
  "sourceRef (step Stop s) = None"
  using stopAudio_fields [of s] by (auto simp: step_def)

lemma find_pending_set_phase:
  "find_pending c ph (set_phase c ph ps) =
     map_option (\<lambda>p. p\<lparr>pphase := ph\<rparr>) (find (\<lambda>p. pcall p = c) ps)"
  by (induction ps) (auto simp: find_pending_def set_phase_def)

lemma find_pcall_Some: "c \<in> set (map pcall ps) \<Longrightarrow> \<exists>q. find (\<lambda>p. pcall p = c) ps = Some q"
  by (induction ps) auto

lemma find_pending_after_set_phase:
  "c \<in> set (map pcall ps) \<Longrightarrow> \<exists>q. find_pending c ph (set_phase c ph ps) = Some q"
  using find_pcall_Some [of c ps] by (auto simp: find_pending_set_phase)

lemma step_FetchOk:
  "find_pending c AwaitFetch (inflight s) = Some p \<Longrightarrow>
   step (FetchOk c suspended) s =
     render (s\<lparr>audioContextRef := Some (),
               inflight := set_phase c (if suspended then AwaitResume else AwaitDecode) (inflight s)\<rparr>)"
  by (simp add: step_def on_fetched_def)

lemma step_ResumeOk:
  "find_pending c AwaitResume (inflight s) = Some p \<Longrightarrow>
   step (ResumeOk c) s = render (s\<lparr>inflight := set_phase c AwaitDecode (inflight s)\<rparr>)"
  by (simp add: step_def on_resumed_def)

lemma step_DecodeOk:
  "find_pending c AwaitDecode (inflight s) = Some p \<Longrightarrow>
   step (DecodeOk c b) s =
     render (s\<lparr>gainNodeRef := Some (if pmuted p then 0 else 1),
            sourceRef := Some (nextSrc s),
            currentAudio := Some b,
            isPlaying := True,
            sounding := sounding s @ [nextSrc s],
            nextSrc := Suc (nextSrc s),
            isLoading := False,
            inflight := drop_pending c (inflight s)\<rparr>)"
  by (simp add: step_def on_decoded_def)

lemma run_append: "run (es @ fs) s = run fs (run es s)"
  by (induction es arbitrary: s) simp_all

lemma awaiting_decode_after_fetch:
  assumes "find_pending c AwaitFetch (inflight s) = Some p"
  shows "\<exists>q. find_pending c AwaitDecode
               (inflight (run (FetchOk c suspended # (if suspended then [ResumeOk c] else [])) s)) = Some q \<and>
             nextSrc (run (FetchOk c suspended # (if suspended then [ResumeOk c] else [])) s) = nextSrc s"
proof -
  from assms have mem: "c \<in> set (map pcall (inflight s))"
    using find_pending_SomeD by fastforce
  show ?thesis
  proof (cases suspended)
    case False
    with assms mem show ?thesis
      by (simp add: step_FetchOk find_pending_after_set_phase)
  next
    case True
    let ?s1 = "step (FetchOk c True) s"
    have s1: "inflight ?s1 = set_phase c AwaitResume (inflight s)" "nextSrc ?s1 = nextSrc s"
      using assms by (simp_all add: step_FetchOk)
    from mem obtain q where q: "find_pending c AwaitResume (inflight ?s1) = Some q"
      using find_pending_after_set_phase s1 by fastforce
    have mem1: "c \<in> set (map pcall (inflight ?s1))"
      using mem s1 by (simp add: map_pcall_set_phase)
    have "inflight (step (ResumeOk c) ?s1) = set_phase c AwaitDecode (inflight ?s1)"
         "nextSrc (step (ResumeOk c) ?s1) = nextSrc s"
      using q s1 by (simp_all add: step_ResumeOk)
    with mem1 True show ?thesis
      by (simp add: find_pending_after_set_phase)
  qed
qed

lemma step_Fail:
  "c \<in> set (map pcall (inflight s)) \<Longrightarrow>
   step (Fail c) s =
     render (s\<lparr>notices := notices s @ [''Failed to play audio narration''],
             isPlaying := False,
             isLoading := False,
             inflight := drop_pending c (inflight s)\<rparr>)"
  by (simp add: step_def on_failed_def)

lemma find_pcall_set_phase:
  "find (\<lambda>p. pcall p = c) (set_phase c ph ps) =
     map_option (\<lambda>p. p\<lparr>pphase := ph\<rparr>) (find (\<lambda>p. pcall p = c) ps)"
  by (induction ps) (auto simp: set_phase_def)

lemma awaiting_decode_keeps_muted:
  assumes "find_pending c AwaitFetch (inflight s) = Some p"
    and "find (\<lambda>p. pcall p = c) (inflight s) = Some p0"
  shows "\<exists>q. find_pending c AwaitDecode
               (inflight (run (FetchOk c suspended # (if suspended then [ResumeOk c] else [])) s)) = Some q \<and>
             pmuted q = pmuted p0 \<and>
             isMuted (run (FetchOk c suspended # (if suspended then [ResumeOk c] else [])) s) = isMuted s"
proof (cases suspended)
  case False
  with assms show ?thesis
    by (simp add: step_FetchOk find_pending_set_phase)
next
  case True
  let ?s1 = "step (FetchOk c True) s"
  have s1: "inflight ?s1 = set_phase c AwaitResume (inflight s)" "isMuted ?s1 = isMuted s"
    using assms by (simp_all add: step_FetchOk)
  have q: "find_pending c AwaitResume (inflight ?s1) = Some (p0\<lparr>pphase := AwaitResume\<rparr>)"
    using assms s1 by (simp add: find_pending_set_phase)
  have "inflight (step (ResumeOk c) ?s1) = set_phase c AwaitDecode (inflight ?s1)"
       "isMuted (step (ResumeOk c) ?s1) = isMuted s"
    using q s1 by (simp_all add: step_ResumeOk)
  with True assms s1 show ?thesis
    by (simp add: find_pending_set_phase find_pcall_set_phase)
qed

lemma find_fresh_append:
  "list_all (\<lambda>p. pcall p < c) ps \<Longrightarrow> pcall n = c \<Longrightarrow>
   find (\<lambda>p. pcall p = c) (ps @ [n]) = Some n"
  by (induction ps) auto

lemma find_pending_fresh_append:
  "list_all (\<lambda>p. pcall p < c) ps \<Longrightarrow> pcall n = c \<Longrightarrow> pphase n = ph \<Longrightarrow>
   find_pending c ph (ps @ [n]) = Some n"
  by (induction ps) (auto simp: find_pending_def)

lemma step_Mute_held:
  assumes "coherent s" and "isPlaying s"
  shows "step Mute s = s\<lparr>gainNodeRef := Some 0, isMuted := True\<rparr>"
  using assms by (auto simp: coherent_def step_def render_def muteAudio_def split: option.splits)

lemma mute_then_replay:
  assumes r: "reachable s" and pl: "isPlaying s"
  shows "isMuted (run (Mute # Play # Play # loaded_ok (nextCall s) suspended b) s) \<and>
         gainNodeRef (run (Mute # Play # Play # loaded_ok (nextCall s) suspended b) s) = Some 0 \<and>
         isPlaying (run (Mute # Play # Play # loaded_ok (nextCall s) suspended b) s)"
proof -
  define c where "c = nextCall s"
  define s1 where "s1 = step Mute s"
  define s2 where "s2 = step Play s1"
  define s3 where "s3 = step Play s2"
  define s4 where "s4 = run (FetchOk c suspended # (if suspended then [ResumeOk c] else [])) s3"
  have co: "coherent s" using r by (rule reachable_coherent)
  have e1: "s1 = s\<lparr>gainNodeRef := Some 0, isMuted := True\<rparr>"
    unfolding s1_def by (rule step_Mute_held [OF co pl])
  have co1: "coherent s1" unfolding s1_def by (rule coherent_step [OF co])
  have pl1: "isPlaying s1" using pl e1 by simp
  from step_Play_playing [OF co1 pl1] have f2:
    "isMuted s2 = True" "seenMuted s2 = True" "\<not> isPlaying s2" "inflight s2 = inflight s"
    "nextCall s2 = c"
    unfolding s2_def c_def using e1 by auto
  have co2: "coherent s2" unfolding s2_def by (rule coherent_step [OF co1])
  have e3: "s3 = s2\<lparr>isLoading := True, fetches := Suc (fetches s2),
                  inflight := inflight s2 @
                    [\<lparr>pcall = nextCall s2, pphase = AwaitFetch, pmuted = seenMuted s2\<rparr>],
                  nextCall := Suc (nextCall s2)\<rparr>"
    unfolding s3_def using step_Play_idle [OF co2] f2 by simp
  have old: "list_all (\<lambda>p. pcall p < c) (inflight s)"
    using co by (simp add: coherent_def c_def)
  let ?n = "\<lparr>pcall = c, pphase = AwaitFetch, pmuted = True\<rparr>"
  have i3: "inflight s3 = inflight s @ [?n]" "isMuted s3 = True"
    using e3 f2 by simp_all
  have a: "find_pending c AwaitFetch (inflight s3) = Some ?n"
    using old by (simp add: i3 find_pending_fresh_append)
  have b: "find (\<lambda>p. pcall p = c) (inflight s3) = Some ?n"
    using old by (simp add: i3 find_fresh_append)
  from awaiting_decode_keeps_muted [OF a b, of suspended] obtain q where
    q: "find_pending c AwaitDecode (inflight s4) = Some q" "pmuted q" "isMuted s4"
    unfolding s4_def using i3 by auto
  have "run (Mute # Play # Play # loaded_ok (nextCall s) suspended b) s = step (DecodeOk c b) s4"
    unfolding s4_def s3_def s2_def s1_def c_def by (simp add: loaded_ok_def run_append)
  then have fin: "run (Mute # Play # Play # loaded_ok (nextCall s) suspended b) s =
     render (s4\<lparr>gainNodeRef := Some (if pmuted q then 0 else 1),
            sourceRef := Some (nextSrc s4),
            currentAudio := Some b,
            isPlaying := True,
            sounding := sounding s4 @ [nextSrc s4],
            nextSrc := Suc (nextSrc s4),
            isLoading := False,
            inflight := drop_pending c (inflight s4)\<rparr>)"
    by (simp only: step_DecodeOk [OF q(1)])
  show ?thesis unfolding fin using q by simp
qed

section \<open>Properties of the audio controller\<close>

text \<open>
  C2, as the claim states it, fails: two play requests during loading each complete,
  the second installs its source over the first without stopping it, and two started
  sources sound together, the controller holding the second only.
\<close>

theorem two_outputs_coexist:
  "reachable (run [Play, Play, FetchOk 0 False, DecodeOk 0 7, FetchOk 1 False, DecodeOk 1 8] mount) \<and>
   sounding (run [Play, Play, FetchOk 0 False, DecodeOk 0 7, FetchOk 1 False, DecodeOk 1 8] mount) = [0, 1] \<and>
   sourceRef (run [Play, Play, FetchOk 0 False, DecodeOk 0 7, FetchOk 1 False, DecodeOk 1 8] mount) = Some 1"
proof -
  have "reachable (run [Play, Play, FetchOk 0 False, DecodeOk 0 7, FetchOk 1 False, DecodeOk 1 8] mount)"
    by (rule reachable_run [OF reachable_mount])
  moreover have
    "sounding (run [Play, Play, FetchOk 0 False, DecodeOk 0 7, FetchOk 1 False, DecodeOk 1 8] mount) = [0, 1]"
    by code_simp
  moreover have
    "sourceRef (run [Play, Play, FetchOk 0 False, DecodeOk 0 7, FetchOk 1 False, DecodeOk 1 8] mount) = Some 1"
    by code_simp
  ultimately show ?thesis by blast
qed

text \<open>
  C2, amended. In every reachable state with status \<open>Playing\<close>, a call of
  \<open>playAudio\<close> is a call of \<open>stopAudio\<close>: the source held is stopped, the handle is
  released, the status is no longer \<open>Playing\<close>, no fetch is issued and no call is put
  in flight. As long as play is never requested while \<open>isLoading\<close> is set (the play
  button is disabled then), at most one source is sounding in every state reached.
\<close>

theorem play_while_playing_toggles:
  "(reachable s \<and> status_of s = Playing \<longrightarrow>
      playAudio s = stopAudio s \<and>
      (\<exists>x. sourceRef s = Some x \<and> x \<in> set (sounding s) \<and> x \<notin> set (sounding (step Play s))) \<and>
      sourceRef (step Play s) = None \<and>
      status_of (step Play s) \<noteq> Playing \<and>
      fetches (step Play s) = fetches s \<and>
      inflight (step Play s) = inflight s) \<and>
   (ui_reachable s \<longrightarrow> length (sounding s) \<le> 1)"
proof (intro conjI impI)
  assume a: "reachable s \<and> status_of s = Playing"
  then have co: "coherent s" by (simp add: reachable_coherent)
  from a have pl: "isPlaying s" by (simp add: status_of_def split: if_splits)
  from co pl show "playAudio s = stopAudio s" by (simp add: playAudio_def coherent_def)
  from step_Play_playing [OF co pl] obtain x where
    x: "sourceRef s = Some x" "x \<in> set (sounding s)"
       "step Play s = s\<lparr>sounding := removeAll x (sounding s), sourceRef := None,
                            isPlaying := False, currentAudio := None,
                            seenPlaying := False, seenMuted := isMuted s\<rparr>"
    by blast
  then show "\<exists>x. sourceRef s = Some x \<and> x \<in> set (sounding s) \<and> x \<notin> set (sounding (step Play s))"
    by simp
  from x show "sourceRef (step Play s) = None" by simp
  from x show "status_of (step Play s) \<noteq> Playing" by (simp add: status_of_def)
  from x show "fetches (step Play s) = fetches s" by simp
  from x show "inflight (step Play s) = inflight s" by simp
next
  assume "ui_reachable s"
  then have "single_flight s" by (rule ui_reachable_single_flight)
  then show "length (sounding s) \<le> 1"
    by (simp add: single_flight_def split: option.splits)
qed

theorem play_while_playing_toggles_witness:
  "reachable (run [Play, FetchOk 0 False, DecodeOk 0 7] mount) \<and>
   ui_reachable (run [Play, FetchOk 0 False, DecodeOk 0 7] mount) \<and>
   status_of (run [Play, FetchOk 0 False, DecodeOk 0 7] mount) = Playing \<and>
   sourceRef (step Play (run [Play, FetchOk 0 False, DecodeOk 0 7] mount)) = None \<and>
   fetches (step Play (run [Play, FetchOk 0 False, DecodeOk 0 7] mount)) = 1 \<and>
   length (sounding (run [Play, FetchOk 0 False, DecodeOk 0 7] mount)) \<le> 1"
proof -
  let ?s = "run [Play, FetchOk 0 False, DecodeOk 0 7] mount"
  have r: "reachable ?s" by (rule reachable_run [OF reachable_mount])
  have "ui_reachable (ui_run [Play, FetchOk 0 False, DecodeOk 0 7] mount)"
    by (rule ui_reachable_run [OF ui_reachable_mount])
  moreover have "ui_run [Play, FetchOk 0 False, DecodeOk 0 7] mount = ?s"
    by code_simp
  ultimately have u: "ui_reachable ?s" by simp
  have p: "status_of ?s = Playing" by code_simp
  have f: "fetches ?s = 1" by code_simp
  from play_while_playing_toggles [of ?s] r u p f show ?thesis by simp
qed

text \<open>
  C3, as the claim states it, fails: \<open>stopAudio\<close> leaves the call in flight,
  whether it awaits the fetch or the decoding, and when the decoding resolves the call
  installs and starts the source; the stopped session is playing again.
\<close>

theorem stopped_session_resumes:
  "status_of (run [Play, Stop] mount) = Loading \<and>
   status_of (run [Play, Stop, FetchOk 0 False, DecodeOk 0 5] mount) = Playing \<and>
   sourceRef (run [Play, Stop, FetchOk 0 False, DecodeOk 0 5] mount) = Some 0 \<and>
   sounding (run [Play, Stop, FetchOk 0 False, DecodeOk 0 5] mount) = [0] \<and>
   status_of (run [Play, FetchOk 0 False, Stop] mount) = Loading \<and>
   status_of (run [Play, FetchOk 0 False, Stop, DecodeOk 0 5] mount) = Playing \<and>
   sourceRef (run [Play, FetchOk 0 False, Stop, DecodeOk 0 5] mount) = Some 0"
  by code_simp

lemma remaining_ok_reaches_decode:
  assumes "find_pending c ph (inflight s) = Some p"
  shows "\<exists>s1 q. run (remaining_ok c ph suspended b) s = step (DecodeOk c b) s1 \<and>
                find_pending c AwaitDecode (inflight s1) = Some q \<and>
                nextSrc s1 = nextSrc s"
proof (cases ph)
  case AwaitFetch
  define s1 where
    "s1 = run (FetchOk c suspended # (if suspended then [ResumeOk c] else [])) s"
  from assms AwaitFetch have "find_pending c AwaitFetch (inflight s) = Some p" by simp
  from awaiting_decode_after_fetch [OF this, of suspended] obtain q where
    "find_pending c AwaitDecode (inflight s1) = Some q" "nextSrc s1 = nextSrc s"
    unfolding s1_def by blast
  moreover have "run (remaining_ok c ph suspended b) s = step (DecodeOk c b) s1"
    unfolding s1_def using AwaitFetch by (simp add: loaded_ok_def run_append)
  ultimately show ?thesis by blast
next
  case AwaitResume
  define s1 where "s1 = step (ResumeOk c) s"
  from assms AwaitResume have pend: "find_pending c AwaitResume (inflight s) = Some p" by simp
  then have mem: "c \<in> set (map pcall (inflight s))"
    using find_pending_SomeD by fastforce
  have "inflight s1 = set_phase c AwaitDecode (inflight s)" "nextSrc s1 = nextSrc s"
    unfolding s1_def by (simp_all add: step_ResumeOk [OF pend])
  moreover from mem obtain q where
    "find_pending c AwaitDecode (set_phase c AwaitDecode (inflight s)) = Some q"
    using find_pending_after_set_phase by blast
  moreover have "run (remaining_ok c ph suspended b) s = step (DecodeOk c b) s1"
    unfolding s1_def using AwaitResume by simp
  ultimately show ?thesis by auto
next
  case AwaitDecode
  with assms show ?thesis by auto
qed

text \<open>
  C3, amended. A \<open>stopAudio\<close> at any moment of the loading, while the call awaits
  the fetch, the resume of the context or the decoding, neither aborts nor marks the
  call in flight: the call stays pending and no fetch is added. If the awaited promise
  then rejects, the session is left stopped (status \<open>Idle\<close>, no handle). If the
  awaits that remain succeed, the call installs a fresh source in \<open>sourceRef\<close>,
  starts it, and the status is \<open>Playing\<close>.
\<close>

theorem stop_does_not_cancel_loading:
  assumes "find_pending c ph (inflight s) = Some p"
  shows "inflight (step Stop s) = inflight s \<and>
         fetches (step Stop s) = fetches s \<and>
         status_of (run [Stop, Fail c] s) = Idle \<and>
         sourceRef (run [Stop, Fail c] s) = None \<and>
         status_of (run (Stop # remaining_ok c ph suspended b) s) = Playing \<and>
         sourceRef (run (Stop # remaining_ok c ph suspended b) s) = Some (nextSrc s) \<and>
         nextSrc s \<in> set (sounding (run (Stop # remaining_ok c ph suspended b) s))"
proof -
  have pend: "find_pending c ph (inflight (step Stop s)) = Some p"
    using assms by (simp add: step_Stop_fields)
  then have mem: "c \<in> set (map pcall (inflight (step Stop s)))"
    using find_pending_SomeD by fastforce
  have failed: "status_of (run [Stop, Fail c] s) = Idle" "sourceRef (run [Stop, Fail c] s) = None"
    by (simp_all add: step_Fail [OF mem] status_of_def step_Stop_fields)
  from remaining_ok_reaches_decode [OF pend, of suspended b] obtain s1 q where
    r: "run (remaining_ok c ph suspended b) (step Stop s) = step (DecodeOk c b) s1" and
    q: "find_pending c AwaitDecode (inflight s1) = Some q" and
    n: "nextSrc s1 = nextSrc (step Stop s)"
    by blast
  have "run (Stop # remaining_ok c ph suspended b) s = step (DecodeOk c b) s1"
    using r by simp
  then have fin: "run (Stop # remaining_ok c ph suspended b) s =
     render (s1\<lparr>gainNodeRef := Some (if pmuted q then 0 else 1),
            sourceRef := Some (nextSrc s1),
            currentAudio := Some b,
            isPlaying := True,
            sounding := sounding s1 @ [nextSrc s1],
            nextSrc := Suc (nextSrc s1),
            isLoading := False,
            inflight := drop_pending c (inflight s1)\<rparr>)"
    by (simp only: step_DecodeOk [OF q])
  have "status_of (run (Stop # remaining_ok c ph suspended b) s) = Playing \<and>
        sourceRef (run (Stop # remaining_ok c ph suspended b) s) = Some (nextSrc s) \<and>
        nextSrc s \<in> set (sounding (run (Stop # remaining_ok c ph suspended b) s))"
    unfolding fin using n by (simp add: status_of_def step_Stop_fields)
  with failed show ?thesis by (simp add: step_Stop_fields)
qed

theorem stop_does_not_cancel_loading_witness:
  "find_pending 0 AwaitFetch (inflight (run [Play] mount)) =
     Some \<lparr>pcall = 0, pphase = AwaitFetch, pmuted = False\<rparr> \<and>
   inflight (step Stop (run [Play] mount)) = inflight (run [Play] mount) \<and>
   status_of (run [Stop, Fail 0] (run [Play] mount)) = Idle \<and>
   status_of (run (Stop # remaining_ok 0 AwaitFetch True 5) (run [Play] mount)) = Playing \<and>
   sourceRef (run (Stop # remaining_ok 0 AwaitFetch True 5) (run [Play] mount)) = Some 0 \<and>
   find_pending 0 AwaitDecode (inflight (run [Play, FetchOk 0 False] mount)) =
     Some \<lparr>pcall = 0, pphase = AwaitDecode, pmuted = False\<rparr> \<and>
   status_of (run [Stop, DecodeOk 0 5] (run [Play, FetchOk 0 False] mount)) = Playing \<and>
   find_pending 0 AwaitResume (inflight (run [Play, FetchOk 0 True] mount)) =
     Some \<lparr>pcall = 0, pphase = AwaitResume, pmuted = False\<rparr> \<and>
   status_of (run [Stop, ResumeOk 0, DecodeOk 0 5] (run [Play, FetchOk 0 True] mount)) = Playing"
proof -
  have h: "find_pending 0 AwaitFetch (inflight (run [Play] mount)) =
     Some \<lparr>pcall = 0, pphase = AwaitFetch, pmuted = False\<rparr>"
    by code_simp
  have n: "nextSrc (run [Play] mount) = 0" by code_simp
  have d: "find_pending 0 AwaitDecode (inflight (run [Play, FetchOk 0 False] mount)) =
     Some \<lparr>pcall = 0, pphase = AwaitDecode, pmuted = False\<rparr>"
    by code_simp
  have r: "find_pending 0 AwaitResume (inflight (run [Play, FetchOk 0 True] mount)) =
     Some \<lparr>pcall = 0, pphase = AwaitResume, pmuted = False\<rparr>"
    by code_simp
  from stop_does_not_cancel_loading [OF h, of True 5] n have
    "inflight (step Stop (run [Play] mount)) = inflight (run [Play] mount)"
    "status_of (run [Stop, Fail 0] (run [Play] mount)) = Idle"
    "status_of (run (Stop # remaining_ok 0 AwaitFetch True 5) (run [Play] mount)) = Playing"
    "sourceRef (run (Stop # remaining_ok 0 AwaitFetch True 5) (run [Play] mount)) = Some 0"
    by simp_all
  moreover from stop_does_not_cancel_loading [OF d, of False 5] have
    "status_of (run [Stop, DecodeOk 0 5] (run [Play, FetchOk 0 False] mount)) = Playing"
    by simp
  moreover from stop_does_not_cancel_loading [OF r, of False 5] have
    "status_of (run [Stop, ResumeOk 0, DecodeOk 0 5] (run [Play, FetchOk 0 True] mount)) = Playing"
    by simp
  ultimately show ?thesis using h d r by blast
qed

text \<open>
  C4, as the claim states it, fails: \<open>playAudio\<close> tests \<open>isPlaying\<close> only, so a
  second call during loading starts a second fetch while the first is pending.
\<close>

theorem second_fetch_during_loading:
  "status_of (run [Play] mount) = Loading \<and>
   length (inflight (run [Play, Play] mount)) = 2 \<and>
   fetches (run [Play, Play] mount) = 2"
  by code_simp

text \<open>
  C4, amended. In every reachable state whose status is not \<open>Playing\<close>, also during
  loading, a call of \<open>playAudio\<close> starts a fetch and adds a call in flight. As long as
  play is never requested while \<open>isLoading\<close> is set (the play button is disabled
  then), at most one call is in flight in every state reached, and \<open>isLoading\<close> is
  set exactly while there is one.
\<close>

theorem single_fetch_under_disabled_button:
  "(reachable s \<and> status_of s \<noteq> Playing \<longrightarrow>
      fetches (step Play s) = Suc (fetches s) \<and>
      length (inflight (step Play s)) = Suc (length (inflight s))) \<and>
   (ui_reachable s \<longrightarrow> length (inflight s) \<le> 1 \<and> (isLoading s = (inflight s \<noteq> [])))"
proof (intro conjI impI)
  assume a: "reachable s \<and> status_of s \<noteq> Playing"
  then have co: "coherent s" by (simp add: reachable_coherent)
  from a have np: "\<not> isPlaying s" by (simp add: status_of_def split: if_splits)
  show "fetches (step Play s) = Suc (fetches s)"
    by (simp add: step_Play_idle [OF co np])
  show "length (inflight (step Play s)) = Suc (length (inflight s))"
    by (simp add: step_Play_idle [OF co np])
next
  assume "ui_reachable s"
  then have sf: "single_flight s" by (rule ui_reachable_single_flight)
  then show "length (inflight s) \<le> 1" by (simp add: single_flight_def)
  from sf show "isLoading s = (inflight s \<noteq> [])" by (simp add: single_flight_def)
qed

theorem single_fetch_under_disabled_button_witness:
  "reachable (run [Play] mount) \<and> ui_reachable (run [Play] mount) \<and>
   status_of (run [Play] mount) \<noteq> Playing \<and>
   fetches (step Play (run [Play] mount)) = 2 \<and>
   length (inflight (run [Play] mount)) \<le> 1"
proof -
  let ?s = "run [Play] mount"
  have r: "reachable ?s" by (rule reachable_run [OF reachable_mount])
  have "ui_reachable (ui_run [Play] mount)"
    by (rule ui_reachable_run [OF ui_reachable_mount])
  moreover have "ui_run [Play] mount = ?s" by code_simp
  ultimately have u: "ui_reachable ?s" by simp
  have p: "status_of ?s \<noteq> Playing" by code_simp
  have f: "fetches ?s = 1" by code_simp
  from single_fetch_under_disabled_button [of ?s] r u p f show ?thesis by simp
qed

text \<open>
  C5, as the claim states it, fails: with two calls in flight, the first installs its
  source and the second fails; the \<open>catch\<close> clears \<open>isPlaying\<close> and leaves
  \<open>sourceRef\<close>, so a handle is held while the status is \<open>Idle\<close>.
\<close>

theorem dangling_handle_after_failure:
  "reachable (run [Play, Play, FetchOk 0 False, DecodeOk 0 5, Fail 1] mount) \<and>
   sourceRef (run [Play, Play, FetchOk 0 False, DecodeOk 0 5, Fail 1] mount) = Some 0 \<and>
   status_of (run [Play, Play, FetchOk 0 False, DecodeOk 0 5, Fail 1] mount) = Idle"
proof -
  have "reachable (run [Play, Play, FetchOk 0 False, DecodeOk 0 5, Fail 1] mount)"
    by (rule reachable_run [OF reachable_mount])
  moreover have "sourceRef (run [Play, Play, FetchOk 0 False, DecodeOk 0 5, Fail 1] mount) = Some 0"
    by code_simp
  moreover have "status_of (run [Play, Play, FetchOk 0 False, DecodeOk 0 5, Fail 1] mount) = Idle"
    by code_simp
  ultimately show ?thesis by blast
qed

text \<open>
  C5, amended. In every reachable state with status \<open>Playing\<close> a handle is held. As
  long as play is never requested while \<open>isLoading\<close> is set, the handle is held
  exactly when the status is \<open>Playing\<close>, and a rejected fetch, resume or decoding of
  the call in flight leaves the status \<open>Idle\<close> with no handle and no source sounding.
\<close>

theorem handle_iff_playing_under_disabled_button:
  "(reachable s \<and> status_of s = Playing \<longrightarrow> sourceRef s \<noteq> None) \<and>
   (ui_reachable s \<longrightarrow>
      ((sourceRef s \<noteq> None) = (status_of s = Playing)) \<and>
      (c \<in> set (map pcall (inflight s)) \<longrightarrow>
         status_of (step (Fail c) s) = Idle \<and> sourceRef (step (Fail c) s) = None \<and>
         sounding (step (Fail c) s) = []))"
proof (intro conjI impI)
  assume "reachable s \<and> status_of s = Playing"
  then have "coherent s" "isPlaying s"
    by (simp_all add: reachable_coherent status_of_def split: if_splits)
  then show "sourceRef s \<noteq> None" by (simp add: coherent_def)
next
  assume "ui_reachable s"
  then have sf: "single_flight s" by (rule ui_reachable_single_flight)
  then show "(sourceRef s \<noteq> None) = (status_of s = Playing)"
    by (simp add: single_flight_def status_of_def)
  assume c: "c \<in> set (map pcall (inflight s))"
  then have "inflight s \<noteq> []" by auto
  with sf have idle: "\<not> isPlaying s" "sourceRef s = None" "sounding s = []"
    by (auto simp: single_flight_def split: option.splits)
  show "status_of (step (Fail c) s) = Idle"
    by (simp add: step_Fail [OF c] status_of_def)
  show "sourceRef (step (Fail c) s) = None"
    using idle by (simp add: step_Fail [OF c])
  show "sounding (step (Fail c) s) = []"
    using idle by (simp add: step_Fail [OF c])
qed

theorem handle_iff_playing_under_disabled_button_witness:
  "reachable (run [Play, FetchOk 0 False, DecodeOk 0 5] mount) \<and>
   status_of (run [Play, FetchOk 0 False, DecodeOk 0 5] mount) = Playing \<and>
   sourceRef (run [Play, FetchOk 0 False, DecodeOk 0 5] mount) \<noteq> None \<and>
   ui_reachable (run [Play, FetchOk 0 False] mount) \<and>
   0 \<in> set (map pcall (inflight (run [Play, FetchOk 0 False] mount))) \<and>
   (sourceRef (run [Play, FetchOk 0 False] mount) \<noteq> None) =
     (status_of (run [Play, FetchOk 0 False] mount) = Playing) \<and>
   status_of (step (Fail 0) (run [Play, FetchOk 0 False] mount)) = Idle \<and>
   sourceRef (step (Fail 0) (run [Play, FetchOk 0 False] mount)) = None"
proof -
  let ?s = "run [Play, FetchOk 0 False] mount"
  let ?t = "run [Play, FetchOk 0 False, DecodeOk 0 5] mount"
  have rt: "reachable ?t" by (rule reachable_run [OF reachable_mount])
  have pt: "status_of ?t = Playing" by code_simp
  have "ui_reachable (ui_run [Play, FetchOk 0 False] mount)"
    by (rule ui_reachable_run [OF ui_reachable_mount])
  moreover have "ui_run [Play, FetchOk 0 False] mount = ?s" by code_simp
  ultimately have u: "ui_reachable ?s" by simp
  have m: "0 \<in> set (map pcall (inflight ?s))" by code_simp
  from handle_iff_playing_under_disabled_button [of ?t] rt pt
  have "sourceRef ?t \<noteq> None" by blast
  moreover from handle_iff_playing_under_disabled_button [of ?s 0] u m
  have "(sourceRef ?s \<noteq> None) = (status_of ?s = Playing)"
    "status_of (step (Fail 0) ?s) = Idle" "sourceRef (step (Fail 0) ?s) = None"
    by blast+
  ultimately show ?thesis using rt pt u m by blast
qed

text \<open>
  C6, as the claim states it, fails: before the first playback there is no gain node,
  and \<open>muteAudio\<close> then changes nothing, the mute flag included; the playback that
  follows sets the gain to 1.
\<close>

theorem mute_before_playback_is_lost:
  "muteAudio mount = mount \<and> \<not> isMuted (muteAudio mount) \<and>
   gainNodeRef (run [Mute, Play, FetchOk 0 False, DecodeOk 0 5] mount) = Some 1"
  by code_simp

text \<open>
  C6, amended. When the gain node exists, \<open>muteAudio\<close> sets its gain to 0 and the
  flag, and \<open>unmuteAudio\<close> sets its gain to 1 and clears the flag. When no gain node
  exists yet, neither call changes anything, the flag included. A mute made while a
  playback is sounding stays in force for the next one: after the toggle that stops
  the playback and a new play request whose load succeeds, the flag is set and the
  gain is 0.
\<close>

theorem mute_needs_gain_node:
  "(gainNodeRef s \<noteq> None \<longrightarrow>
      gainNodeRef (muteAudio s) = Some 0 \<and> isMuted (muteAudio s) \<and>
      gainNodeRef (unmuteAudio s) = Some 1 \<and> \<not> isMuted (unmuteAudio s)) \<and>
   (gainNodeRef s = None \<longrightarrow> muteAudio s = s \<and> unmuteAudio s = s) \<and>
   (reachable s \<and> status_of s = Playing \<longrightarrow>
      isMuted (run (Mute # Play # Play # loaded_ok (nextCall s) suspended b) s) \<and>
      gainNodeRef (run (Mute # Play # Play # loaded_ok (nextCall s) suspended b) s) = Some 0)"
proof (intro conjI impI)
  assume "reachable s \<and> status_of s = Playing"
  then have "reachable s" "isPlaying s" by (simp_all add: status_of_def split: if_splits)
  from mute_then_replay [OF this]
  show "isMuted (run (Mute # Play # Play # loaded_ok (nextCall s) suspended b) s)"
    and "gainNodeRef (run (Mute # Play # Play # loaded_ok (nextCall s) suspended b) s) = Some 0"
    by blast+
qed (auto simp: muteAudio_def unmuteAudio_def)

theorem mute_needs_gain_node_witness:
  "reachable (run [Play, FetchOk 0 False, DecodeOk 0 7] mount) \<and>
   status_of (run [Play, FetchOk 0 False, DecodeOk 0 7] mount) = Playing \<and>
   gainNodeRef (run [Play, FetchOk 0 False, DecodeOk 0 7] mount) = Some 1 \<and>
   gainNodeRef (muteAudio (run [Play, FetchOk 0 False, DecodeOk 0 7] mount)) = Some 0 \<and>
   gainNodeRef mount = None \<and> muteAudio mount = mount \<and>
   gainNodeRef (run (Mute # Play # Play # loaded_ok 1 False 8)
                  (run [Play, FetchOk 0 False, DecodeOk 0 7] mount)) = Some 0"
proof -
  let ?s = "run [Play, FetchOk 0 False, DecodeOk 0 7] mount"
  have r: "reachable ?s" by (rule reachable_run [OF reachable_mount])
  have p: "status_of ?s = Playing" by code_simp
  have g: "gainNodeRef ?s = Some 1" by code_simp
  have n: "nextCall ?s = 1" by code_simp
  have m: "gainNodeRef mount = None" by code_simp
  from mute_needs_gain_node [of ?s False 8] r p g n have
    "gainNodeRef (muteAudio ?s) = Some 0"
    "gainNodeRef (run (Mute # Play # Play # loaded_ok 1 False 8) ?s) = Some 0"
    by simp_all
  moreover from mute_needs_gain_node [of mount] m have "muteAudio mount = mount" by blast
  ultimately show ?thesis using r p g m by blast
qed

text \<open>
  The closure of \<open>playAudio\<close> is renewed only when \<open>isPlaying\<close> changes. A mute made
  while nothing is playing sets the flag and the gain, but the closure in use still
  holds the old flag, and the next playback sets the gain to 1 with the flag set.
\<close>

lemma stale_mute_flag:
  "isMuted (run [Play, FetchOk 0 False, DecodeOk 0 5, Ended 0, Mute,
                 Play, FetchOk 1 False, DecodeOk 1 6] mount) \<and>
   gainNodeRef (run [Play, FetchOk 0 False, DecodeOk 0 5, Ended 0, Mute] mount) = Some 0 \<and>
   gainNodeRef (run [Play, FetchOk 0 False, DecodeOk 0 5, Ended 0, Mute,
                     Play, FetchOk 1 False, DecodeOk 1 6] mount) = Some 1"
  by code_simp




section \<open>Invariants of the loader\<close>




















section \<open>Properties of the loader\<close>





text \<open>
  The ten-second timer of a load is never cancelled and tests the flag of the page,
  not its own load. The timer of a load that has already failed clears the flag of
  the load that came after it; the next caller then starts a third load while the
  second is pending.
\<close>

lemma stale_timeout_clears_flag:
  "promise_state 1 (page_run [Mount (Some ''AIza''), ScriptError 0, Mount (Some ''AIza''), Timeout 0]
                      fresh_page) = Pending \<and>
   \<not> isLoadingGoogleMaps (page_run [Mount (Some ''AIza''), ScriptError 0, Mount (Some ''AIza''),
                                     Timeout 0] fresh_page) \<and>
   requests (page_run [Mount (Some ''AIza''), ScriptError 0, Mount (Some ''AIza''), Timeout 0,
                       Mount (Some ''AIza'')] fresh_page) = 3"
  by code_simp

text \<open>
  C7, as the claim states it, fails: a component that mounts with the placeholder key
  after the SDK has been fully loaded takes \<open>loaded = true\<close> from its first render,
  and the effect, which returns at once, never changes it.
\<close>

theorem placeholder_key_reports_loaded:
  "invalid_key (Some placeholder) \<and> \<not> invalid_key (Some ''AIza'') \<and>
   hooks (page_run [Mount (Some ''AIza''), SdkAttached, ScriptRan 0, Mount (Some placeholder)]
            fresh_page) ! 1 = \<lparr>loaded = True, awaits = None\<rparr>"
  by code_simp

text \<open>
  C7, amended. For a key that is absent, empty or the placeholder, the hook starts no
  load: it appends no script element, registers no callback and no timer, makes no
  promise and leaves the flag as it was. Its \<open>loaded\<close> state stays what the first
  render made it: false, unless the SDK was already fully loaded on the page.
\<close>

theorem invalid_key_starts_no_load:
  assumes "invalid_key apiKey"
  shows "useGoogleMaps apiKey s = s\<lparr>hooks := hooks s @ [\<lparr>loaded = fullyLoaded s, awaits = None\<rparr>]\<rparr> \<and>
         scripts (useGoogleMaps apiKey s) = scripts s \<and>
         requests (useGoogleMaps apiKey s) = requests s \<and>
         callbacks (useGoogleMaps apiKey s) = callbacks s \<and>
         timeouts (useGoogleMaps apiKey s) = timeouts s \<and>
         promises (useGoogleMaps apiKey s) = promises s \<and>
         isLoadingGoogleMaps (useGoogleMaps apiKey s) = isLoadingGoogleMaps s \<and>
         loaded (last (hooks (useGoogleMaps apiKey s))) = fullyLoaded s"
  using assms by (simp add: useGoogleMaps_def)

theorem invalid_key_starts_no_load_witness:
  "invalid_key (Some placeholder) \<and> invalid_key None \<and>
   requests (useGoogleMaps (Some placeholder) fresh_page) = 0 \<and>
   scripts (useGoogleMaps None fresh_page) = [] \<and>
   \<not> loaded (last (hooks (useGoogleMaps (Some placeholder) fresh_page)))"
proof -
  have a: "invalid_key (Some placeholder)" and b: "invalid_key None"
    by (simp_all add: invalid_key_def)
  from invalid_key_starts_no_load [OF a, of fresh_page]
    invalid_key_starts_no_load [OF b, of fresh_page] a b
  show ?thesis
    by (simp add: fresh_page_def)
qed

end
